theory Spec2Isabelle
  imports Main
begin

unbundle bit_operations_syntax

section \<open>Data model of markdown.go\<close>

text \<open>
  A Go \<open>byte\<close> is an 8-bit value; \<open>[]byte\<close> is a list of them. Indices and lengths
  are never negative in the code below, so they are natural numbers.
\<close>

type_synonym byte = char

definition NL :: byte where "NL = CHR 0x0A"
definition CR :: byte where "CR = CHR 0x0D"
definition TAB :: byte where "TAB = CHR 0x09"
definition SP :: byte where "SP = CHR 0x20"

text \<open>
  The ways in which a call does not return a result: the run-time panics of Go (an index
  or a slice bound out of range, a division by zero, a nil pointer), the explicit panic of
  \<open>secondPass\<close>, a panic raised by a collaborator outside this file (\<open>External\<close>), and
  a loop that would never end (\<open>NoProgress\<close>).
\<close>

datatype panic =
  IndexOutOfRange
  | SliceOutOfRange
  | DivideByZero
  | NilDereference
  | NoProgress
  | NestingNotZero
  | External

text \<open>The parsing extensions: \<open>1 << iota\<close>.\<close>

definition EXTENSION_NO_INTRA_EMPHASIS :: int where "EXTENSION_NO_INTRA_EMPHASIS = 1"
definition EXTENSION_TABLES :: int where "EXTENSION_TABLES = 2"
definition EXTENSION_FENCED_CODE :: int where "EXTENSION_FENCED_CODE = 4"
definition EXTENSION_AUTOLINK :: int where "EXTENSION_AUTOLINK = 8"
definition EXTENSION_STRIKETHROUGH :: int where "EXTENSION_STRIKETHROUGH = 16"
definition EXTENSION_LAX_HTML_BLOCKS :: int where "EXTENSION_LAX_HTML_BLOCKS = 32"
definition EXTENSION_SPACE_HEADERS :: int where "EXTENSION_SPACE_HEADERS = 64"
definition EXTENSION_HARD_LINE_BREAK :: int where "EXTENSION_HARD_LINE_BREAK = 128"
definition EXTENSION_NO_EXPAND_TABS :: int where "EXTENSION_NO_EXPAND_TABS = 256"
definition EXTENSION_TAB_SIZE_EIGHT :: int where "EXTENSION_TAB_SIZE_EIGHT = 512"

definition TAB_SIZE_DEFAULT :: nat where "TAB_SIZE_DEFAULT = 4"
definition TAB_SIZE_EIGHT :: nat where "TAB_SIZE_EIGHT = 8"

text \<open>
  The rendering interface: a struct of callbacks, each of which may be nil. Only the two
  document callbacks are called in this file; they write to the output buffer (or panic),
  so they are functions on buffers. The others are only tested against nil here: \<open>'cb\<close> stands
  for their function values. The \<open>Opaque\<close> value is handed back to the callbacks
  unchanged and is part of those functions.
\<close>

record 'cb Renderer =
  BlockCode :: "'cb option"
  BlockQuote :: "'cb option"
  BlockHtml :: "'cb option"
  Header :: "'cb option"
  HRule :: "'cb option"
  List :: "'cb option"
  ListItem :: "'cb option"
  Paragraph :: "'cb option"
  Table :: "'cb option"
  TableRow :: "'cb option"
  TableCell :: "'cb option"
  AutoLink :: "'cb option"
  CodeSpan :: "'cb option"
  DoubleEmphasis :: "'cb option"
  Emphasis :: "'cb option"
  Image :: "'cb option"
  LineBreak :: "'cb option"
  Link :: "'cb option"
  RawHtmlTag :: "'cb option"
  TripleEmphasis :: "'cb option"
  StrikeThrough :: "'cb option"
  Entity :: "'cb option"
  NormalText :: "'cb option"
  DocumentHeader :: "(byte list \<Rightarrow> panic + byte list) option"
  DocumentFooter :: "(byte list \<Rightarrow> panic + byte list) option"

text \<open>The inline parsers that \<open>Markdown\<close> registers (they live in another file).\<close>

datatype inlineParser =
  inlineEmphasis
  | inlineCodeSpan
  | inlineLineBreak
  | inlineLink
  | inlineLAngle
  | inlineEscape
  | inlineEntity
  | inlineAutoLink

record reference =
  link :: "byte list"
  title :: "byte list"

text \<open>
  The \<open>render\<close> struct. \<open>refs\<close> is a Go map from string to reference; \<open>inline\<close>
  is an array of 256 parsers indexed by a byte, nil where nothing is registered.
\<close>

record 'cb render =
  mk :: "'cb Renderer"
  refs :: "byte list \<rightharpoonup> reference"
  inline :: "byte \<Rightarrow> inlineParser option"
  flags :: int
  nesting :: int
  maxNesting :: int
  insideLink :: bool

section \<open>Scanning loops\<close>

text \<open>\<open>data[lo:hi]\<close> for \<open>lo \<le> hi \<le> len(data)\<close>.\<close>

definition slice :: "byte list \<Rightarrow> nat \<Rightarrow> nat \<Rightarrow> byte list" where
  "slice data lo hi = take (hi - lo) (drop lo data)"

text \<open>The loop \<open>for i < len(data) && p(data[i]) { i++ }\<close>; the result is the final \<open>i\<close>.\<close>

function scan_while :: "(byte \<Rightarrow> bool) \<Rightarrow> byte list \<Rightarrow> nat \<Rightarrow> nat" where
  "scan_while p data i =
     (if i < length data \<and> p (data ! i) then scan_while p data (Suc i) else i)"
  by pat_completeness auto
termination
  by (relation "measure (\<lambda>(p, data, i). length data - i)") auto

declare scan_while.simps [simp del]

text \<open>The loop \<open>for i < 3 && data[i] == ' ' { i++ }\<close>, run where \<open>len(data) >= 4\<close>.\<close>

function leading_spaces :: "byte list \<Rightarrow> nat \<Rightarrow> nat" where
  "leading_spaces data i =
     (if i < 3 \<and> data ! i = SP then leading_spaces data (Suc i) else i)"
  by pat_completeness auto
termination
  by (relation "measure (\<lambda>(data, i). 3 - i)") auto

declare leading_spaces.simps [simp del]

text \<open>The loop \<open>for i > titleOffset && (data[i] == ' ' || data[i] == '\t') { i-- }\<close>.\<close>

function step_back :: "byte list \<Rightarrow> nat \<Rightarrow> nat \<Rightarrow> nat" where
  "step_back data titleOffset i =
     (if i > titleOffset \<and> (data ! i = SP \<or> data ! i = TAB)
      then step_back data titleOffset (i - 1) else i)"
  by pat_completeness auto
termination
  by (relation "measure (\<lambda>(data, titleOffset, i). i)") auto

declare step_back.simps [simp del]

definition is_blank :: "byte \<Rightarrow> bool" where
  "is_blank c \<longleftrightarrow> c = SP \<or> c = TAB"

definition not_eol :: "byte \<Rightarrow> bool" where
  "not_eol c \<longleftrightarrow> c \<noteq> NL \<and> c \<noteq> CR"

section \<open>Link references: isReference\<close>

text \<open>
  Lines 339 to 360: up to three leading spaces, then the id between brackets. The result
  is \<open>(idOffset, idEnd)\<close>, or \<open>None\<close> where the code returns 0.
\<close>

definition ref_id :: "byte list \<Rightarrow> (nat \<times> nat) option" where
  "ref_id data =
     (if length data < 4 then None
      else
        let i = leading_spaces data 0 in
        if data ! i \<noteq> CHR ''['' then None
        else
          let idOffset = i + 1;
              i = scan_while (\<lambda>c. c \<noteq> NL \<and> c \<noteq> CR \<and> c \<noteq> CHR '']'') data idOffset in
          if i \<ge> length data \<or> data ! i \<noteq> CHR '']'' then None
          else Some (idOffset, i))"

text \<open>
  Lines 362 to 382, entered with \<open>i = idEnd + 1\<close>: a colon, blanks, at most one line
  break, blanks. The result is the index where the link starts.
\<close>

definition ref_spacer :: "byte list \<Rightarrow> nat \<Rightarrow> nat option" where
  "ref_spacer data i0 =
     (if i0 \<ge> length data \<or> data ! i0 \<noteq> CHR '':'' then None
      else
        let i = scan_while is_blank data (i0 + 1);
            i = (if i < length data \<and> (data ! i = NL \<or> data ! i = CR)
                 then (let i = i + 1 in
                       if i < length data \<and> data ! i = NL \<and> data ! (i - 1) = CR
                       then i + 1 else i)
                 else i);
            i = scan_while is_blank data i in
        if i \<ge> length data then None else Some i)"

text \<open>
  Lines 384 to 396: the link, a run without white space. The result is
  \<open>(linkOffset, linkEnd, i)\<close>. After a \<open><\<close> in the last byte of \<open>data\<close>,
  \<open>data[linkOffset]\<close> on line 393 reads past the end: Go panics.
\<close>

definition ref_link :: "byte list \<Rightarrow> nat \<Rightarrow> panic + (nat \<times> nat \<times> nat)" where
  "ref_link data i0 =
     (let i = (if data ! i0 = CHR ''<'' then i0 + 1 else i0);
          linkOffset = i;
          i = scan_while (\<lambda>c. c \<noteq> SP \<and> c \<noteq> TAB \<and> c \<noteq> NL \<and> c \<noteq> CR) data i;
          linkEnd = i in
      if linkOffset \<ge> length data then Inl IndexOutOfRange
      else if data ! linkOffset = CHR ''<'' \<and> data ! (linkEnd - 1) = CHR ''>''
      then Inr (linkOffset + 1, linkEnd - 1, i)
      else Inr (linkOffset, linkEnd, i))"

text \<open>
  Lines 398 to 451, entered with \<open>i\<close> after the link: the end of the line and the
  optional title. The result is \<open>(lineEnd, titleOffset, titleEnd)\<close>, or \<open>None\<close>
  where the code returns 0. At the step back on line 440, \<open>i\<close> is at least
  \<open>titleOffset\<close>, which is at least 1.
\<close>

definition is_title_open :: "byte \<Rightarrow> bool" where
  "is_title_open c \<longleftrightarrow> c = CHR 0x27 \<or> c = CHR 0x22 \<or> c = CHR ''(''"

definition is_title_close :: "byte \<Rightarrow> bool" where
  "is_title_close c \<longleftrightarrow> c = CHR 0x27 \<or> c = CHR 0x22 \<or> c = CHR '')''"

definition ref_title :: "byte list \<Rightarrow> nat \<Rightarrow> (nat \<times> nat \<times> nat) option" where
  "ref_title data i0 =
     (let i = scan_while is_blank data i0 in
      if i < length data \<and> data ! i \<noteq> NL \<and> data ! i \<noteq> CR \<and> \<not> is_title_open (data ! i)
      then None
      else
        let lineEnd = (if i \<ge> length data \<or> data ! i = CR \<or> data ! i = NL then i else 0);
            lineEnd = (if i + 1 < length data \<and> data ! i = CR \<and> data ! (i + 1) = NL
                       then lineEnd + 1 else lineEnd);
            i = (if lineEnd > 0 then scan_while is_blank data (lineEnd + 1) else i);
            (lineEnd, titleOffset, titleEnd) =
              (if i + 1 < length data \<and> is_title_open (data ! i)
               then
                 let titleOffset = i + 1;
                     i = scan_while not_eol data titleOffset;
                     titleEnd = (if i + 1 < length data \<and> data ! i = NL \<and> data ! (i + 1) = CR
                                 then i + 1 else i);
                     i = step_back data titleOffset (i - 1) in
                 if i > titleOffset \<and> is_title_close (data ! i)
                 then (titleEnd, titleOffset, i)
                 else (lineEnd, titleOffset, titleEnd)
               else (lineEnd, 0, 0)) in
        if lineEnd = 0 then None else Some (lineEnd, titleOffset, titleEnd))"

text \<open>
  \<open>isReference\<close>. \<open>ToLower\<close> is \<open>bytes.ToLower\<close> of Go's library. The render
  state is a pointer that may be nil; the updated state is returned beside the number of
  bytes to skip.
\<close>

definition isReference ::
  "(byte list \<Rightarrow> byte list) \<Rightarrow> 'cb render option \<Rightarrow> byte list
     \<Rightarrow> panic + (nat \<times> 'cb render option)" where
  "isReference ToLower rndr data =
     (case ref_id data of
        None \<Rightarrow> Inr (0, rndr)
      | Some (idOffset, idEnd) \<Rightarrow>
     (case ref_spacer data (idEnd + 1) of
        None \<Rightarrow> Inr (0, rndr)
      | Some i \<Rightarrow>
     (case ref_link data i of
        Inl e \<Rightarrow> Inl e
      | Inr (linkOffset, linkEnd, i) \<Rightarrow>
     (case ref_title data i of
        None \<Rightarrow> Inr (0, rndr)
      | Some (lineEnd, titleOffset, titleEnd) \<Rightarrow>
     (case rndr of
        None \<Rightarrow> Inr (lineEnd, None)
      | Some r \<Rightarrow>
          let id = ToLower (slice data idOffset idEnd) in
          Inr (lineEnd,
               Some (r\<lparr>refs := (refs r)(id \<mapsto>
                  \<lparr>link = slice data linkOffset linkEnd,
                   title = slice data titleOffset titleEnd\<rparr>)\<rparr>)))))))"

section \<open>Tab expansion: expandTabs\<close>

text \<open>
  Lines 502 to 513, over the rest \<open>line[i:]\<close> of the line: the result is
  \<open>(prefix, slowcase)\<close>.
\<close>

fun tab_prefix :: "byte list \<Rightarrow> nat \<Rightarrow> nat \<Rightarrow> nat \<times> bool" where
  "tab_prefix [] i prefix = (prefix, False)"
| "tab_prefix (c # cs) i prefix =
     (if c = TAB
      then (if prefix = i then tab_prefix cs (Suc i) (Suc prefix) else (prefix, True))
      else tab_prefix cs (Suc i) prefix)"

text \<open>Lines 516 to 522: the spaces for the tabs at the beginning, then the rest.\<close>

definition expandTabs_fast :: "byte list \<Rightarrow> byte list \<Rightarrow> nat \<Rightarrow> nat \<Rightarrow> byte list" where
  "expandTabs_fast out line prefix tabSize =
     out @ replicate (prefix * tabSize) SP @ drop prefix line"

text \<open>
  Lines 530 to 534. \<open>DecodeRuneSize p\<close> is the size that \<open>utf8.DecodeRune(p)\<close> of
  Go's library returns: at least 1 and at most \<open>len(p)\<close> on a non-empty \<open>p\<close>. A size
  of 0 would leave \<open>i\<close> where it is and the loop would never end: \<open>NoProgress\<close>.
\<close>

function rune_run ::
  "(byte list \<Rightarrow> nat) \<Rightarrow> byte list \<Rightarrow> nat \<Rightarrow> nat \<Rightarrow> panic + (nat \<times> nat)" where
  "rune_run DecodeRuneSize line i column =
     (if i < length line \<and> line ! i \<noteq> TAB
      then
        let size = DecodeRuneSize (drop i line) in
        if size = 0 then Inl NoProgress
        else rune_run DecodeRuneSize line (i + size) (column + 1)
      else Inr (i, column))"
  by pat_completeness auto
termination
  by (relation "measure (\<lambda>(d, line, i, column). length line - i)") auto

declare rune_run.simps [simp del]

text \<open>
  Lines 544 to 550: spaces up to the next tab stop. \<open>column%tabSize\<close> panics where
  \<open>tabSize\<close> is 0.
\<close>

function tab_fill :: "nat \<Rightarrow> nat \<Rightarrow> byte list \<Rightarrow> panic + (byte list \<times> nat)" where
  "tab_fill tabSize column out =
     (let out = out @ [SP];
          column = column + 1 in
      if tabSize = 0 then Inl DivideByZero
      else if column mod tabSize = 0 then Inr (out, column)
      else tab_fill tabSize column out)"
  by pat_completeness auto
termination
proof (relation "measure (\<lambda>(tabSize, column, out). tabSize - 1 - column mod tabSize)")
  show "wf (measure (\<lambda>(tabSize, column, out). tabSize - 1 - column mod tabSize))"
    by simp
next
  fix tabSize column :: nat and out x xa :: "byte list" and xb :: nat
  assume "xb = column + 1" and "tabSize \<noteq> 0" and nz: "xb mod tabSize \<noteq> 0"
  then have "Suc column mod tabSize = Suc (column mod tabSize)"
    by (simp add: mod_Suc split: if_splits)
  moreover have "Suc column mod tabSize < tabSize"
    using \<open>tabSize \<noteq> 0\<close> by simp
  ultimately show "((tabSize, xb, xa), tabSize, column, out)
      \<in> measure (\<lambda>(tabSize, column, out). tabSize - 1 - column mod tabSize)"
    using \<open>xb = column + 1\<close> by simp
qed

declare tab_fill.simps [simp del]

lemma rune_run_ge: "rune_run d line i column = Inr (j, c) \<Longrightarrow> i \<le> j"
proof (induction d line i column rule: rune_run.induct)
  case (1 d line i column)
  show ?case
  proof (cases "i < length line \<and> line ! i \<noteq> TAB")
    case True
    with "1.prems" have nz: "d (drop i line) \<noteq> 0"
      by (auto simp: rune_run.simps [of d line i column] Let_def split: if_splits)
    with True "1.prems" have "rune_run d line (i + d (drop i line)) (column + 1) = Inr (j, c)"
      by (simp add: rune_run.simps [of d line i column] Let_def)
    with "1.IH" [OF True refl nz] show ?thesis by simp
  next
    case False
    with "1.prems" show ?thesis
      by (auto simp: rune_run.simps [of d line i column])
  qed
qed

text \<open>
  Lines 526 to 553. \<open>tabSize\<close> is 4 or 8 at the only call, a natural number here.
  \<open>line[start:i]\<close> needs \<open>i\<close> within the slice; a decoder that keeps to its contract
  never moves \<open>i\<close> past the end of the line.
\<close>

function expandTabs_slow_loop ::
  "(byte list \<Rightarrow> nat) \<Rightarrow> byte list \<Rightarrow> nat \<Rightarrow> nat \<Rightarrow> nat \<Rightarrow> byte list \<Rightarrow> panic + byte list" where
  "expandTabs_slow_loop DecodeRuneSize line tabSize i column out =
     (if i < length line
      then
        let start = i in
        (case rune_run DecodeRuneSize line i column of
           Inl e \<Rightarrow> Inl e
         | Inr (i, column) \<Rightarrow>
             if i > length line then Inl SliceOutOfRange
             else
               let out = (if i > start then out @ slice line start i else out) in
               if i \<ge> length line then Inr out
               else
                 (case tab_fill tabSize column out of
                    Inl e \<Rightarrow> Inl e
                  | Inr (out, column) \<Rightarrow>
                      expandTabs_slow_loop DecodeRuneSize line tabSize (i + 1) column out))
      else Inr out)"
  by pat_completeness auto
termination
  by (relation "measure (\<lambda>(d, line, tabSize, i, column, out). length line - i)")
    (auto dest: rune_run_ge)

declare expandTabs_slow_loop.simps [simp del]

definition expandTabs_slow ::
  "(byte list \<Rightarrow> nat) \<Rightarrow> byte list \<Rightarrow> byte list \<Rightarrow> nat \<Rightarrow> panic + byte list" where
  "expandTabs_slow DecodeRuneSize out line tabSize =
     expandTabs_slow_loop DecodeRuneSize line tabSize 0 0 out"

text \<open>\<open>expandTabs\<close>: the buffer \<open>out\<close> is written to; the new buffer is returned.\<close>

definition expandTabs ::
  "(byte list \<Rightarrow> nat) \<Rightarrow> byte list \<Rightarrow> byte list \<Rightarrow> nat \<Rightarrow> panic + byte list" where
  "expandTabs DecodeRuneSize out line tabSize =
     (let (prefix, slowcase) = tab_prefix line 0 0 in
      if \<not> slowcase then Inr (expandTabs_fast out line prefix tabSize)
      else expandTabs_slow DecodeRuneSize out line tabSize)"

section \<open>The first pass\<close>

lemma scan_while_step:
  "i < length data \<Longrightarrow> p (data ! i) \<Longrightarrow> scan_while p data i = scan_while p data (Suc i)"
  by (subst scan_while.simps) simp

lemma scan_while_halt:
  "i \<ge> length data \<or> \<not> p (data ! i) \<Longrightarrow> scan_while p data i = i"
  by (subst scan_while.simps) auto

lemma scan_while_ge: "i \<le> scan_while p data i"
proof (induction p data i rule: scan_while.induct)
  case (1 p data i)
  show ?case
  proof (cases "i < length data \<and> p (data ! i)")
    case True
    with "1.IH" have "Suc i \<le> scan_while p data (Suc i)" by simp
    with True show ?thesis by (simp add: scan_while_step)
  next
    case False
    then show ?thesis by (auto simp: scan_while_halt)
  qed
qed

lemma scan_while_le: "i \<le> length data \<Longrightarrow> scan_while p data i \<le> length data"
proof (induction p data i rule: scan_while.induct)
  case (1 p data i)
  show ?case
  proof (cases "i < length data \<and> p (data ! i)")
    case True
    with "1.IH" have "scan_while p data (Suc i) \<le> length data" by simp
    with True show ?thesis by (simp add: scan_while_step)
  next
    case False
    with "1.prems" show ?thesis by (auto simp: scan_while_halt)
  qed
qed

lemma scan_while_stop:
  "scan_while p data i < length data \<Longrightarrow> \<not> p (data ! scan_while p data i)"
proof (induction p data i rule: scan_while.induct)
  case (1 p data i)
  show ?case
  proof (cases "i < length data \<and> p (data ! i)")
    case True
    then have eq: "scan_while p data i = scan_while p data (Suc i)"
      by (simp add: scan_while_step)
    with "1.IH" [OF True] "1.prems" show ?thesis by simp
  next
    case False
    then have eq: "scan_while p data i = i"
      by (auto simp: scan_while_halt)
    with False "1.prems" show ?thesis by simp
  qed
qed

lemma scan_while_between:
  "i \<le> j \<Longrightarrow> j < scan_while p data i \<Longrightarrow> p (data ! j) \<and> j < length data"
proof (induction p data i rule: scan_while.induct)
  case (1 p data i)
  show ?case
  proof (cases "i < length data \<and> p (data ! i)")
    case True
    then have eq: "scan_while p data i = scan_while p data (Suc i)"
      by (simp add: scan_while_step)
    show ?thesis
    proof (cases "j = i")
      case True
      with \<open>i < length data \<and> p (data ! i)\<close> show ?thesis by simp
    next
      case False
      with "1.prems" eq have "Suc i \<le> j" "j < scan_while p data (Suc i)" by simp_all
      with "1.IH" [OF True] show ?thesis by simp
    qed
  next
    case False
    then have "scan_while p data i = i"
      by (auto simp: scan_while_halt)
    with "1.prems" show ?thesis by simp
  qed
qed

text \<open>Lines 278 to 283: the index after the terminator that starts at \<open>end\<close>, if any.\<close>

definition skip_eol :: "byte list \<Rightarrow> nat \<Rightarrow> nat" where
  "skip_eol input end0 =
     (let end = (if end0 < length input \<and> input ! end0 = CR then end0 + 1 else end0) in
      if end < length input \<and> input ! end = NL then end + 1 else end)"

text \<open>
  Lines 263 to 285: one line is copied to \<open>out\<close>, tabs expanded, and closed with a
  newline; the result is the buffer and the index after the line's own terminator.
\<close>

definition copy_line ::
  "(byte list \<Rightarrow> nat) \<Rightarrow> 'cb render option \<Rightarrow> byte list \<Rightarrow> nat \<Rightarrow> nat \<Rightarrow> byte list
     \<Rightarrow> panic + (byte list \<times> nat)" where
  "copy_line DecodeRuneSize rndr input tabSize beg out =
     (let end = scan_while not_eol input beg in
      (case
         (if end > beg
          then
            (case rndr of
               None \<Rightarrow> Inl NilDereference
             | Some r \<Rightarrow>
                 if flags r AND EXTENSION_NO_EXPAND_TABS = 0
                 then expandTabs DecodeRuneSize out (slice input beg end) tabSize
                 else Inr (out @ slice input beg end))
          else Inr out)
       of
         Inl e \<Rightarrow> Inl e
       | Inr out \<Rightarrow> Inr (out @ [NL], skip_eol input end)))"

lemma copy_line_advances:
  assumes "copy_line d rndr input tabSize beg out = Inr (out', end')" and "beg < length input"
  shows "beg < end'"
proof -
  let ?e = "scan_while not_eol input beg"
  have ge: "beg \<le> ?e" by (rule scan_while_ge)
  have le: "?e \<le> length input" using assms(2) by (simp add: scan_while_le)
  have alt: "?e < end' \<or> (?e = end' \<and> \<not> (?e < length input \<and> (input ! ?e = CR \<or> input ! ?e = NL)))"
    using assms(1)
    by (auto simp: copy_line_def skip_eol_def Let_def split: sum.splits if_splits)
  show ?thesis
  proof (cases "?e < length input")
    case True
    then have "input ! ?e = CR \<or> input ! ?e = NL"
      using scan_while_stop [of not_eol input beg] by (auto simp: not_eol_def)
    with True alt have "?e < end'" by blast
    with ge show ?thesis by simp
  next
    case False
    with le have "?e = length input" by simp
    moreover from alt have "?e \<le> end'" by auto
    ultimately show ?thesis using assms(2) by simp
  qed
qed

text \<open>
  Lines 259 to 287: the loop over the lines. \<open>rndr\<close> is the pointer that
  \<open>isReference\<close> writes through.
\<close>

function firstPass_loop ::
  "(byte list \<Rightarrow> byte list) \<Rightarrow> (byte list \<Rightarrow> nat) \<Rightarrow> 'cb render option \<Rightarrow> byte list \<Rightarrow> nat
     \<Rightarrow> nat \<Rightarrow> byte list \<Rightarrow> panic + (byte list \<times> 'cb render option)" where
  "firstPass_loop ToLower DecodeRuneSize rndr input tabSize beg out =
     (if beg < length input
      then
        (case isReference ToLower rndr (drop beg input) of
           Inl e \<Rightarrow> Inl e
         | Inr (end, rndr) \<Rightarrow>
             if end > 0
             then firstPass_loop ToLower DecodeRuneSize rndr input tabSize (beg + end) out
             else
               (case copy_line DecodeRuneSize rndr input tabSize beg out of
                  Inl e \<Rightarrow> Inl e
                | Inr (out, end) \<Rightarrow>
                    firstPass_loop ToLower DecodeRuneSize rndr input tabSize end out))
      else Inr (out, rndr))"
  by pat_completeness auto
termination
  by (relation "measure (\<lambda>(l, d, rndr, input, tabSize, beg, out). length input - beg)")
    (auto dest: copy_line_advances)

declare firstPass_loop.simps [simp del]

text \<open>\<open>firstPass\<close>: the normalized buffer, and the render state with the references.\<close>

definition firstPass ::
  "(byte list \<Rightarrow> byte list) \<Rightarrow> (byte list \<Rightarrow> nat) \<Rightarrow> 'cb render option \<Rightarrow> byte list
     \<Rightarrow> panic + (byte list \<times> 'cb render option)" where
  "firstPass ToLower DecodeRuneSize rndr input =
     (case rndr of
        None \<Rightarrow> Inl NilDereference
      | Some r \<Rightarrow>
          let tabSize = (if flags r AND EXTENSION_TAB_SIZE_EIGHT \<noteq> 0
                         then TAB_SIZE_EIGHT else TAB_SIZE_DEFAULT) in
          firstPass_loop ToLower DecodeRuneSize rndr input tabSize 0 [])"

section \<open>The second pass\<close>

text \<open>
  \<open>parseBlock\<close> lives in another file: it writes to the output buffer and changes
  the render state (the nesting depth among others), or panics.
\<close>

type_synonym 'cb block_parser =
  "byte list \<Rightarrow> 'cb render \<Rightarrow> byte list \<Rightarrow> panic + (byte list \<times> 'cb render)"

definition call_slot ::
  "(byte list \<Rightarrow> panic + byte list) option \<Rightarrow> byte list \<Rightarrow> panic + byte list" where
  "call_slot slot output = (case slot of None \<Rightarrow> Inr output | Some f \<Rightarrow> f output)"

definition secondPass ::
  "'cb block_parser \<Rightarrow> 'cb render option \<Rightarrow> byte list \<Rightarrow> panic + byte list" where
  "secondPass parseBlock rndr input =
     (case rndr of
        None \<Rightarrow> Inl NilDereference
      | Some r \<Rightarrow>
     (case call_slot (DocumentHeader (mk r)) [] of
        Inl e \<Rightarrow> Inl e
      | Inr output \<Rightarrow>
     (case parseBlock output r input of
        Inl e \<Rightarrow> Inl e
      | Inr (output, r) \<Rightarrow>
     (case call_slot (DocumentFooter (mk r)) output of
        Inl e \<Rightarrow> Inl e
      | Inr output \<Rightarrow>
          if nesting r \<noteq> 0 then Inl NestingNotZero else Inr output))))"

section \<open>The public interface: Markdown\<close>

definition register :: "'cb render \<Rightarrow> byte \<Rightarrow> inlineParser \<Rightarrow> 'cb render" where
  "register rndr c p = rndr\<lparr>inline := (inline rndr)(c := Some p)\<rparr>"

text \<open>Lines 209 to 239: the render structure is filled in, the inline parsers are registered.\<close>

definition new_render :: "'cb Renderer \<Rightarrow> int \<Rightarrow> 'cb render" where
  "new_render renderer extensions =
     (let rndr = \<lparr>mk = renderer, refs = Map.empty, inline = (\<lambda>c. None), flags = extensions,
                  nesting = 0, maxNesting = 16, insideLink = False\<rparr>;
          rndr =
            (if Emphasis (mk rndr) \<noteq> None \<or> DoubleEmphasis (mk rndr) \<noteq> None
                \<or> TripleEmphasis (mk rndr) \<noteq> None
             then
               let rndr = register rndr (CHR ''*'') inlineEmphasis;
                   rndr = register rndr (CHR ''_'') inlineEmphasis in
               if extensions AND EXTENSION_STRIKETHROUGH \<noteq> 0
               then register rndr (CHR ''~'') inlineEmphasis else rndr
             else rndr);
          rndr = (if CodeSpan (mk rndr) \<noteq> None
                  then register rndr (CHR 0x60) inlineCodeSpan else rndr);
          rndr = (if LineBreak (mk rndr) \<noteq> None
                  then register rndr NL inlineLineBreak else rndr);
          rndr = (if Image (mk rndr) \<noteq> None \<or> Link (mk rndr) \<noteq> None
                  then register rndr (CHR ''['') inlineLink else rndr);
          rndr = register rndr (CHR ''<'') inlineLAngle;
          rndr = register rndr (CHR 0x5C) inlineEscape;
          rndr = register rndr (CHR ''&'') inlineEntity in
      if extensions AND EXTENSION_AUTOLINK \<noteq> 0
      then register rndr (CHR '':'') inlineAutoLink else rndr)"

text \<open>\<open>Markdown\<close>: the result \<open>None\<close> is Go's nil slice.\<close>

definition Markdown ::
  "(byte list \<Rightarrow> byte list) \<Rightarrow> (byte list \<Rightarrow> nat) \<Rightarrow> 'cb block_parser
     \<Rightarrow> byte list \<Rightarrow> 'cb Renderer option \<Rightarrow> int \<Rightarrow> panic + byte list option" where
  "Markdown ToLower DecodeRuneSize parseBlock input renderer extensions =
     (case renderer of
        None \<Rightarrow> Inr None
      | Some m \<Rightarrow>
          let rndr = Some (new_render m extensions) in
          (case firstPass ToLower DecodeRuneSize rndr input of
             Inl e \<Rightarrow> Inl e
           | Inr (first, rndr) \<Rightarrow>
               (case secondPass parseBlock rndr first of
                  Inl e \<Rightarrow> Inl e
                | Inr second \<Rightarrow> Inr (Some second))))"

section \<open>Notions of the specification\<close>

text \<open>
  The label of a reference definition: the bytes between the opening bracket that follows
  the leading spaces and the next closing bracket.
\<close>

definition label_of :: "byte list \<Rightarrow> byte list" where
  "label_of data = takeWhile (\<lambda>c. c \<noteq> CHR '']'') (drop 1 (dropWhile (\<lambda>c. c = SP) data))"

text \<open>
  Lower-casing of ASCII letters, byte by byte: what \<open>bytes.ToLower\<close> does to text
  that is ASCII. Two labels differ only in letter case where it maps them to the same bytes.
\<close>

definition ascii_lower :: "byte \<Rightarrow> byte" where
  "ascii_lower c =
     (if (65::nat) \<le> of_char c \<and> of_char c \<le> (90::nat) then char_of (of_char c + (32::nat)) else c)"

definition differ_in_case_only :: "byte list \<Rightarrow> byte list \<Rightarrow> bool" where
  "differ_in_case_only a b \<longleftrightarrow> map ascii_lower a = map ascii_lower b"

text \<open>A renderer with no callback at all, and the render state that \<open>Markdown\<close> builds for it.\<close>

definition minimal_renderer :: "unit Renderer" where
  "minimal_renderer =
     \<lparr>BlockCode = None, BlockQuote = None, BlockHtml = None, Header = None, HRule = None,
      List = None, ListItem = None, Paragraph = None, Table = None, TableRow = None,
      TableCell = None, AutoLink = None, CodeSpan = None, DoubleEmphasis = None,
      Emphasis = None, Image = None, LineBreak = None, Link = None, RawHtmlTag = None,
      TripleEmphasis = None, StrikeThrough = None, Entity = None, NormalText = None,
      DocumentHeader = None, DocumentFooter = None\<rparr>"

text \<open>
  The emphasis family of callbacks, and the bytes under which \<open>Markdown\<close> may register
  an inline parser.
\<close>

definition has_emphasis :: "'cb Renderer \<Rightarrow> bool" where
  "has_emphasis m \<longleftrightarrow> Emphasis m \<noteq> None \<or> DoubleEmphasis m \<noteq> None \<or> TripleEmphasis m \<noteq> None"

definition trigger_bytes :: "byte set" where
  "trigger_bytes = {CHR ''*'', CHR ''_'', CHR ''~'', CHR 0x60, NL, CHR ''['', CHR ''<'', CHR 0x5C,
     CHR ''&'', CHR '':''}"

text \<open>
  Two block parsers to run \<open>Markdown\<close> with: one copies its input and leaves the nesting
  depth alone, one enters a level that it never leaves.
\<close>

definition parse_copy :: "unit block_parser" where
  "parse_copy output rndr input = Inr (output @ input, rndr)"

definition parse_unbalanced :: "unit block_parser" where
  "parse_unbalanced output rndr input = Inr (output @ input, rndr\<lparr>nesting := nesting rndr + 1\<rparr>)"











text \<open>
  What the code relies on from \<open>utf8.DecodeRune\<close>: on a non-empty slice the size it
  reports is at least 1 and at most the length of the slice.
\<close>

definition decoder_contract :: "(byte list \<Rightarrow> nat) \<Rightarrow> bool" where
  "decoder_contract d \<longleftrightarrow> (\<forall>p. p \<noteq> [] \<longrightarrow> 1 \<le> d p \<and> d p \<le> length p)"

text \<open>
  The decoder on ASCII text: every byte is a character of its own.
\<close>

definition ascii_rune_size :: "byte list \<Rightarrow> nat" where
  "ascii_rune_size p = 1"

text \<open>Inputs on which the code is run below.\<close>

definition def_foo :: "byte list" where
  "def_foo = ''[Foo]: /a'' @ [NL]"

definition def_foo2 :: "byte list" where
  "def_foo2 = ''[fOO]: /b (T)'' @ [NL]"

definition angle_input :: "byte list" where
  "angle_input = ''[a]: <http://x>'' @ [NL]"

definition example_input :: "byte list" where
  \<open>example_input = ''[1]: http://example.com "Example"'' @ [NL] @ ''See [text][1].'' @ [NL]\<close>

definition example_reference :: reference where
  "example_reference = \<lparr>link = ''http://example.com'', title = ''Example''\<rparr>"

definition panic_input :: "byte list" where
  "panic_input = ''[a]:<''"

definition reference_a :: reference where
  "reference_a = \<lparr>link = ''/a'', title = []\<rparr>"

definition reference_b :: reference where
  "reference_b = \<lparr>link = ''/b'', title = ''T''\<rparr>"







section \<open>Properties of isReference\<close>

subsection \<open>The leading spaces and the label\<close>

lemma leading_spaces_step:
  "i < 3 \<Longrightarrow> data ! i = SP \<Longrightarrow> leading_spaces data i = leading_spaces data (Suc i)"
  by (subst leading_spaces.simps) simp

lemma leading_spaces_halt:
  "i \<ge> 3 \<or> data ! i \<noteq> SP \<Longrightarrow> leading_spaces data i = i"
  by (subst leading_spaces.simps) auto

lemma leading_spaces_bounds: "i \<le> leading_spaces data i \<and> (i \<le> 3 \<longrightarrow> leading_spaces data i \<le> 3)"
proof (induction data i rule: leading_spaces.induct)
  case (1 data i)
  show ?case
  proof (cases "i < 3 \<and> data ! i = SP")
    case True
    with "1.IH" show ?thesis by (simp add: leading_spaces_step)
  next
    case False
    then show ?thesis by (auto simp: leading_spaces_halt)
  qed
qed

lemma leading_spaces_all:
  "i \<le> j \<Longrightarrow> j < leading_spaces data i \<Longrightarrow> data ! j = SP"
proof (induction data i rule: leading_spaces.induct)
  case (1 data i)
  show ?case
  proof (cases "i < 3 \<and> data ! i = SP")
    case True
    then have eq: "leading_spaces data i = leading_spaces data (Suc i)"
      by (simp add: leading_spaces_step)
    show ?thesis
    proof (cases "j = i")
      case True
      with \<open>i < 3 \<and> data ! i = SP\<close> show ?thesis by simp
    next
      case False
      with "1.prems" eq have "Suc i \<le> j" "j < leading_spaces data (Suc i)" by simp_all
      with "1.IH" [OF True] show ?thesis by simp
    qed
  next
    case False
    then have "leading_spaces data i = i" by (auto simp: leading_spaces_halt)
    with "1.prems" show ?thesis by simp
  qed
qed

lemma leading_spaces_stop:
  "leading_spaces data i < 3 \<Longrightarrow> data ! leading_spaces data i \<noteq> SP"
proof (induction data i rule: leading_spaces.induct)
  case (1 data i)
  show ?case
  proof (cases "i < 3 \<and> data ! i = SP")
    case True
    then have eq: "leading_spaces data i = leading_spaces data (Suc i)"
      by (simp add: leading_spaces_step)
    with "1.IH" [OF True] "1.prems" show ?thesis by simp
  next
    case False
    then have eq: "leading_spaces data i = i" by (auto simp: leading_spaces_halt)
    with False "1.prems" show ?thesis by auto
  qed
qed

lemma leading_spaces_replicate:
  assumes "k \<le> 3" and "c \<noteq> SP"
  shows "leading_spaces (replicate k SP @ c # xs) 0 = k"
proof -
  let ?d = "replicate k SP @ c # xs"
  let ?n = "leading_spaces ?d 0"
  have nk: "?d ! k = c" by (simp add: nth_append)
  have "\<not> k < ?n"
  proof
    assume "k < ?n"
    then have "?d ! k = SP" using leading_spaces_all [of 0 k ?d] by simp
    with nk assms(2) show False by simp
  qed
  moreover have "\<not> ?n < k"
  proof
    assume lt: "?n < k"
    with assms(1) have "?n < 3" by simp
    then have "?d ! ?n \<noteq> SP" by (rule leading_spaces_stop)
    moreover from lt have "?d ! ?n = SP" by (simp add: nth_append)
    ultimately show False by simp
  qed
  ultimately show ?thesis by simp
qed

lemma ref_id_unclosed:
  assumes data: "data = replicate k SP @ CHR ''['' # label @ rest"
    and k: "k \<le> 3"
    and label: "CHR '']'' \<notin> set label"
    and rest: "rest = [] \<or> hd rest = NL \<or> hd rest = CR"
  shows "ref_id data = None"
proof (cases "length data < 4")
  case True
  then show ?thesis by (simp add: ref_id_def)
next
  case False
  let ?p = "\<lambda>c. c \<noteq> NL \<and> c \<noteq> CR \<and> c \<noteq> CHR '']''"
  let ?m = "k + 1 + length label"
  have sp: "CHR ''['' \<noteq> SP" by (simp add: SP_def)
  have ls: "leading_spaces data 0 = k"
    unfolding data using k sp by (rule leading_spaces_replicate)
  have at_k: "data ! k = CHR ''[''" by (simp add: data nth_append)
  let ?j = "scan_while ?p data (k + 1)"
  have len: "length data = ?m + length rest" by (simp add: data)
  have in_label: "data ! i \<in> set label" if "k + 1 \<le> i" "i < ?m" for i
  proof -
    from that have lt: "i - (k + 1) < length label" by simp
    from that have "data ! i = (CHR ''['' # label @ rest) ! (i - k)"
      by (simp add: data nth_append)
    also from that have "\<dots> = (label @ rest) ! (i - (k + 1))"
      by (simp add: nth_Cons')
    also from lt have "\<dots> = label ! (i - (k + 1))"
      by (simp add: nth_append)
    finally show ?thesis using lt by simp
  qed
  have at_m: "data ! ?m = hd rest" if "rest \<noteq> []"
    using that by (cases rest) (simp_all add: data nth_append)
  have "?j \<ge> length data \<or> data ! ?j \<noteq> CHR '']''"
  proof (rule ccontr)
    assume "\<not> ?thesis"
    then have j: "?j < length data" "data ! ?j = CHR '']''" by simp_all
    have ge: "k + 1 \<le> ?j" by (rule scan_while_ge)
    consider "?j < ?m" | "?j = ?m" | "?m < ?j" by linarith
    then show False
    proof cases
      case 1
      with ge in_label have "data ! ?j \<in> set label" by simp
      with j label show False by simp
    next
      case 2
      with j len have "rest \<noteq> []" by auto
      with at_m 2 rest j show False by (auto simp: NL_def CR_def)
    next
      case 3
      have "k + 1 \<le> ?m" by simp
      from scan_while_between [OF this 3]
      have "?p (data ! ?m)" "?m < length data" by simp_all
      with len have "rest \<noteq> []" by auto
      with at_m rest \<open>?p (data ! ?m)\<close> show False by auto
    qed
  qed
  with False ls at_k show ?thesis
    by (simp add: ref_id_def Let_def)
qed

lemma ref_id_label:
  assumes "ref_id data = Some (idOffset, idEnd)"
  shows "slice data idOffset idEnd = label_of data"
proof -
  let ?p = "\<lambda>c. c \<noteq> NL \<and> c \<noteq> CR \<and> c \<noteq> CHR '']''"
  let ?i = "leading_spaces data 0"
  from assms have len: "\<not> length data < 4"
    and open_br: "data ! ?i = CHR ''[''"
    and off: "idOffset = ?i + 1"
    and end_eq: "idEnd = scan_while ?p data (?i + 1)"
    and end_lt: "idEnd < length data"
    and close_br: "data ! idEnd = CHR '']''"
    by (auto simp: ref_id_def Let_def split: if_splits)
  have i3: "?i \<le> 3" using leading_spaces_bounds [of 0 data] by simp
  with len have i_lt: "?i < length data" by simp
  have "takeWhile (\<lambda>c. c = SP) data = take ?i data"
  proof (rule takeWhile_eq_take_P_nth)
    fix j assume "j < ?i"
    then show "data ! j = SP" using leading_spaces_all [of 0 j data] by simp
  next
    from open_br show "data ! ?i \<noteq> SP" by (simp add: SP_def)
  qed
  then have "length (takeWhile (\<lambda>c. c = SP) data) = ?i"
    using i_lt by simp
  then have dw: "dropWhile (\<lambda>c. c = SP) data = drop ?i data"
    by (simp add: dropWhile_eq_drop)
  have ge: "?i + 1 \<le> idEnd" unfolding end_eq by (rule scan_while_ge)
  let ?xs = "drop (?i + 1) data"
  have "takeWhile (\<lambda>c. c \<noteq> CHR '']'') ?xs = take (idEnd - (?i + 1)) ?xs"
  proof (rule takeWhile_eq_take_P_nth)
    fix j assume j: "j < idEnd - (?i + 1)" "j < length ?xs"
    then have "?i + 1 \<le> ?i + 1 + j" "?i + 1 + j < scan_while ?p data (?i + 1)"
      using end_eq by simp_all
    from scan_while_between [OF this] j show "?xs ! j \<noteq> CHR '']''"
      by (simp add: add.commute)
  next
    assume "idEnd - (?i + 1) < length ?xs"
    have "?xs ! (idEnd - (?i + 1)) = data ! idEnd"
      using ge end_lt by simp
    with close_br show "\<not> ?xs ! (idEnd - (?i + 1)) \<noteq> CHR '']''" by simp
  qed
  then show ?thesis
    by (simp add: slice_def label_of_def dw off)
qed

subsection \<open>A label that is not closed\<close>

text \<open>
  Claim C8. Where the first line opens a bracketed label after at most three spaces, and a
  line feed, a carriage return or the end of the input comes before any closing bracket,
  \<open>isReference\<close> returns 0 and leaves the render state, and so the reference table,
  as it was.
\<close>

theorem isReference_unclosed_label:
  assumes "data = replicate k SP @ CHR ''['' # label @ rest"
    and "k \<le> 3"
    and "CHR '']'' \<notin> set label"
    and "rest = [] \<or> hd rest = NL \<or> hd rest = CR"
  shows "isReference ToLower rndr data = Inr (0, rndr)"
  using ref_id_unclosed [OF assms] by (simp add: isReference_def)

theorem isReference_unclosed_label_witness:
  "isReference (map ascii_lower) (Some (new_render minimal_renderer 0))
     (replicate 1 SP @ CHR ''['' # ''abc'' @ (NL # '']: x''))
   = Inr (0, Some (new_render minimal_renderer 0))"
  using isReference_unclosed_label [of "replicate 1 SP @ CHR ''['' # ''abc'' @ (NL # '']: x'')"
      1 "''abc''" "NL # '']: x''" "map ascii_lower" "Some (new_render minimal_renderer 0)"]
  by simp

subsection \<open>What a call writes\<close>

lemma ref_title_pos: "ref_title data i = Some (lineEnd, titleOffset, titleEnd) \<Longrightarrow> 0 < lineEnd"
  by (auto simp: ref_title_def Let_def split: if_splits prod.splits)

lemma isReference_uniform:
  "(\<exists>e. \<forall>s :: 'cb render option. isReference ToLower s data = Inl e)
   \<or> (\<forall>s :: 'cb render option. isReference ToLower s data = Inr (0, s))
   \<or> (\<exists>n ref. 0 < n \<and> (\<forall>s :: 'cb render option. isReference ToLower s data =
          Inr (n, map_option (\<lambda>r. r\<lparr>refs := (refs r)(ToLower (label_of data) \<mapsto> ref)\<rparr>) s)))"
proof (cases "ref_id data")
  case None
  then show ?thesis by (simp add: isReference_def)
next
  case (Some ab)
  obtain idOffset idEnd where ab: "ab = (idOffset, idEnd)" by (cases ab)
  with Some have lab: "slice data idOffset idEnd = label_of data"
    by (simp add: ref_id_label)
  show ?thesis
  proof (cases "ref_spacer data (idEnd + 1)")
    case None
    with Some ab show ?thesis by (simp add: isReference_def)
  next
    case sp: (Some i)
    show ?thesis
    proof (cases "ref_link data i")
      case (Inl e)
      with Some ab sp show ?thesis by (simp add: isReference_def)
    next
      case (Inr t)
      obtain linkOffset linkEnd j where t: "t = (linkOffset, linkEnd, j)" by (cases t)
      show ?thesis
      proof (cases "ref_title data j")
        case None
        with Some ab sp Inr t show ?thesis by (simp add: isReference_def)
      next
        case ti: (Some u)
        obtain lineEnd titleOffset titleEnd where u: "u = (lineEnd, titleOffset, titleEnd)"
          by (cases u)
        from ti u have pos: "0 < lineEnd" by (simp add: ref_title_pos)
        have "isReference ToLower s data =
            Inr (lineEnd, map_option (\<lambda>r. r\<lparr>refs := (refs r)(ToLower (label_of data) \<mapsto>
              \<lparr>link = slice data linkOffset linkEnd,
               title = slice data titleOffset titleEnd\<rparr>)\<rparr>) s)" for s :: "'cb render option"
          using Some ab sp Inr t ti u lab
          by (cases s) (simp_all add: isReference_def Let_def)
        with pos show ?thesis by blast
      qed
    qed
  qed
qed

lemma isReference_result:
  fixes rndr :: "'cb render option"
  assumes "isReference ToLower rndr data = Inr (n, rndr')"
  shows "(n = 0 \<and> rndr' = rndr) \<or>
         (0 < n \<and> (\<exists>ref. rndr' = map_option
            (\<lambda>r. r\<lparr>refs := (refs r)(ToLower (label_of data) \<mapsto> ref)\<rparr>) rndr
          \<and> (\<forall>s :: 'cb render option. isReference ToLower s data = Inr (n, map_option
            (\<lambda>r. r\<lparr>refs := (refs r)(ToLower (label_of data) \<mapsto> ref)\<rparr>) s))))"
proof -
  let ?upd = "\<lambda>ref. map_option (\<lambda>r. r\<lparr>refs := (refs r)(ToLower (label_of data) \<mapsto> ref)\<rparr>)"
  consider e where "\<forall>s :: 'cb render option. isReference ToLower s data = Inl e"
    | "\<forall>s :: 'cb render option. isReference ToLower s data = Inr (0, s)"
    | m ref where "0 < m"
        "\<forall>s :: 'cb render option. isReference ToLower s data = Inr (m, ?upd ref s)"
    using isReference_uniform [where ?'cb = 'cb, of ToLower data] by blast
  then show ?thesis
  proof cases
    case 1
    then have "isReference ToLower rndr data = Inl e" by simp
    with assms show ?thesis by simp
  next
    case 2
    then have "isReference ToLower rndr data = Inr (0, rndr)" by simp
    with assms show ?thesis by simp
  next
    case 3
    then have "isReference ToLower rndr data = Inr (m, ?upd ref rndr)" by simp
    with assms have "n = m" "rndr' = ?upd ref rndr" by simp_all
    with 3 show ?thesis by blast
  qed
qed

lemma isReference_def_foo:
  "isReference ToLower (Some r) def_foo =
     Inr (9, Some (r\<lparr>refs := (refs r)(ToLower ''Foo'' \<mapsto> \<lparr>link = ''/a'', title = []\<rparr>)\<rparr>))"
proof -
  have "ref_id def_foo = Some (1, 4)" by code_simp
  moreover have "ref_spacer def_foo 5 = Some 7" by code_simp
  moreover have "ref_link def_foo 7 = Inr (7, 9, 9)" by code_simp
  moreover have "ref_title def_foo 9 = Some (9, 0, 0)" by code_simp
  moreover have "slice def_foo 1 4 = ''Foo''" by code_simp
  moreover have "slice def_foo 7 9 = ''/a''" by code_simp
  moreover have "slice def_foo 0 0 = ''''" by code_simp
  ultimately show ?thesis by (simp add: isReference_def)
qed

lemma isReference_def_foo2:
  "isReference ToLower (Some r) def_foo2 =
     Inr (13, Some (r\<lparr>refs := (refs r)(ToLower ''fOO'' \<mapsto> \<lparr>link = ''/b'', title = ''T''\<rparr>)\<rparr>))"
proof -
  have "ref_id def_foo2 = Some (1, 4)" by code_simp
  moreover have "ref_spacer def_foo2 5 = Some 7" by code_simp
  moreover have "ref_link def_foo2 7 = Inr (7, 9, 9)" by code_simp
  moreover have "ref_title def_foo2 9 = Some (13, 11, 12)" by code_simp
  moreover have "slice def_foo2 1 4 = ''fOO''" by code_simp
  moreover have "slice def_foo2 7 9 = ''/b''" by code_simp
  moreover have "slice def_foo2 11 12 = ''T''" by code_simp
  ultimately show ?thesis by (simp add: isReference_def)
qed

lemma refs_new_render: "refs (new_render m extensions) = Map.empty"
  by (simp add: new_render_def Let_def register_def)

lemma lower_foo: "map ascii_lower ''Foo'' = ''foo''" "map ascii_lower ''fOO'' = ''foo''"
  by code_simp+

lemma key_foo:
  "map ascii_lower (label_of def_foo) = ''foo''" "map ascii_lower (label_of def_foo2) = ''foo''"
  by code_simp+

lemma refs_update_inject:
  "r\<lparr>refs := (refs r)(k \<mapsto> a)\<rparr> = r\<lparr>refs := (refs r)(k \<mapsto> b)\<rparr> \<Longrightarrow> a = b"
proof -
  assume "r\<lparr>refs := (refs r)(k \<mapsto> a)\<rparr> = r\<lparr>refs := (refs r)(k \<mapsto> b)\<rparr>"
  then have "refs (r\<lparr>refs := (refs r)(k \<mapsto> a)\<rparr>) k = refs (r\<lparr>refs := (refs r)(k \<mapsto> b)\<rparr>) k"
    by (rule arg_cong)
  then show ?thesis by simp
qed

text \<open>
  Claim C10. \<open>isReference\<close> writes to the reference table only where it accepts.
  Where it returns 0 the render state is the one it was given, whatever that state is.
  Where it returns a positive count the new state is the old one with exactly one entry
  of \<open>refs\<close> written, under the lower-cased label; the entry written is the same for
  every state the call is given, so an entry that is already there under the key is
  replaced.
\<close>

theorem isReference_writes_on_acceptance:
  fixes r :: "'cb render"
  assumes "isReference ToLower (Some r) data = Inr (n, rndr')"
  shows "(n = 0 \<longrightarrow> rndr' = Some r
            \<and> (\<forall>s :: 'cb render. isReference ToLower (Some s) data = Inr (0, Some s)))
       \<and> (0 < n \<longrightarrow>
            (\<exists>ref. rndr' = Some (r\<lparr>refs := (refs r)(ToLower (label_of data) \<mapsto> ref)\<rparr>)
               \<and> (\<forall>s :: 'cb render. isReference ToLower (Some s) data
                     = Inr (n, Some (s\<lparr>refs := (refs s)(ToLower (label_of data) \<mapsto> ref)\<rparr>)))))"
proof -
  let ?upd = "\<lambda>ref. map_option (\<lambda>r. r\<lparr>refs := (refs r)(ToLower (label_of data) \<mapsto> ref)\<rparr>)"
  consider e where "\<forall>s :: 'cb render option. isReference ToLower s data = Inl e"
    | "\<forall>s :: 'cb render option. isReference ToLower s data = Inr (0, s)"
    | m ref where "0 < m"
        "\<forall>s :: 'cb render option. isReference ToLower s data = Inr (m, ?upd ref s)"
    using isReference_uniform [where ?'cb = 'cb, of ToLower data] by blast
  then show ?thesis
  proof cases
    case 1
    then have "isReference ToLower (Some r) data = Inl e" by blast
    with assms show ?thesis by simp
  next
    case 2
    then have "isReference ToLower (Some r) data = Inr (0, Some r)" by blast
    with assms have "n = 0" "rndr' = Some r" by simp_all
    with 2 show ?thesis by simp
  next
    case 3
    then have all: "isReference ToLower (Some s) data
        = Inr (m, Some (s\<lparr>refs := (refs s)(ToLower (label_of data) \<mapsto> ref)\<rparr>))" for s :: "'cb render"
      using spec [OF 3(2), of "Some s"] by simp
    from all [of r] assms have "n = m"
      "rndr' = Some (r\<lparr>refs := (refs r)(ToLower (label_of data) \<mapsto> ref)\<rparr>)" by simp_all
    with 3(1) all show ?thesis by auto
  qed
qed

theorem isReference_writes_on_acceptance_witness:
  "isReference (map ascii_lower) (Some (new_render minimal_renderer 0)) def_foo2
     = Inr (13, Some ((new_render minimal_renderer 0)\<lparr>refs :=
          (refs (new_render minimal_renderer 0))(''foo'' \<mapsto> reference_b)\<rparr>))
   \<and> isReference (map ascii_lower)
       (Some ((new_render minimal_renderer 0)\<lparr>refs := [''foo'' \<mapsto> reference_a]\<rparr>)) def_foo2
     = Inr (13, Some ((new_render minimal_renderer 0)\<lparr>refs := [''foo'' \<mapsto> reference_b]\<rparr>))"
proof -
  let ?r = "new_render minimal_renderer 0"
  let ?s = "?r\<lparr>refs := [''foo'' \<mapsto> reference_a]\<rparr>"
  have run: "isReference (map ascii_lower) (Some ?r) def_foo2
      = Inr (13, Some (?r\<lparr>refs := (refs ?r)(''foo'' \<mapsto> reference_b)\<rparr>))"
    using isReference_def_foo2 [of "map ascii_lower" ?r, unfolded lower_foo]
    by (simp add: reference_b_def)
  from isReference_writes_on_acceptance [OF run]
  obtain ref where here: "?r\<lparr>refs := (refs ?r)(''foo'' \<mapsto> reference_b)\<rparr>
        = ?r\<lparr>refs := (refs ?r)(map ascii_lower (label_of def_foo2) \<mapsto> ref)\<rparr>"
    and all: "\<forall>s :: unit render. isReference (map ascii_lower) (Some s) def_foo2
        = Inr (13, Some (s\<lparr>refs := (refs s)(map ascii_lower (label_of def_foo2) \<mapsto> ref)\<rparr>))"
    by auto
  from here [unfolded key_foo] have "reference_b = ref"
    by (rule refs_update_inject)
  with spec [OF all [unfolded key_foo], of ?s]
  have "isReference (map ascii_lower) (Some ?s) def_foo2
      = Inr (13, Some (?s\<lparr>refs := (refs ?s)(''foo'' \<mapsto> reference_b)\<rparr>))"
    by simp
  with run show ?thesis by simp
qed

subsection \<open>Labels that differ in case\<close>

text \<open>
  Claim C4. The key of an entry is the lower-cased label. With a \<open>ToLower\<close> that sends
  labels differing only in letter case to the same bytes, two accepted definitions with
  such labels are stored under one key. Each of the two writes its own entry, the same
  for every state it is parsed in; after the first the table holds the entry of the
  first under the key, and after the second it holds the entry of the second there and
  nothing of the first: the one parsed later overwrites the earlier one.
\<close>

theorem later_definition_overwrites:
  fixes r :: "'cb render"
  assumes fold: "\<forall>a b. differ_in_case_only a b \<longrightarrow> ToLower a = ToLower b"
    and first: "isReference ToLower (Some r) d1 = Inr (n1, Some r1)" "0 < n1"
    and second: "isReference ToLower (Some r1) d2 = Inr (n2, Some r2)" "0 < n2"
    and labels: "differ_in_case_only (label_of d1) (label_of d2)"
  shows "ToLower (label_of d1) = ToLower (label_of d2)
    \<and> (\<exists>ref1 ref2.
          (\<forall>s :: 'cb render. isReference ToLower (Some s) d1
             = Inr (n1, Some (s\<lparr>refs := (refs s)(ToLower (label_of d1) \<mapsto> ref1)\<rparr>)))
        \<and> (\<forall>s :: 'cb render. isReference ToLower (Some s) d2
             = Inr (n2, Some (s\<lparr>refs := (refs s)(ToLower (label_of d1) \<mapsto> ref2)\<rparr>)))
        \<and> refs r1 = (refs r)(ToLower (label_of d1) \<mapsto> ref1)
        \<and> refs r2 = (refs r)(ToLower (label_of d1) \<mapsto> ref2)
        \<and> r2 = r\<lparr>refs := (refs r)(ToLower (label_of d1) \<mapsto> ref2)\<rparr>)"
proof -
  let ?k = "ToLower (label_of d1)"
  have key: "?k = ToLower (label_of d2)" using labels fold by blast
  from isReference_result [OF first(1)] first(2)
  obtain ref1 where r1: "r1 = r\<lparr>refs := (refs r)(?k \<mapsto> ref1)\<rparr>"
    and any1: "\<forall>s :: 'cb render option. isReference ToLower s d1 = Inr (n1, map_option
            (\<lambda>r. r\<lparr>refs := (refs r)(?k \<mapsto> ref1)\<rparr>) s)"
    by auto
  from isReference_result [OF second(1)] second(2)
  obtain ref2 where r2: "r2 = r1\<lparr>refs := (refs r1)(?k \<mapsto> ref2)\<rparr>"
    and any2: "\<forall>s :: 'cb render option. isReference ToLower s d2 = Inr (n2, map_option
            (\<lambda>r. r\<lparr>refs := (refs r)(?k \<mapsto> ref2)\<rparr>) s)"
    unfolding key [symmetric] by auto
  have a1: "\<forall>s :: 'cb render. isReference ToLower (Some s) d1
             = Inr (n1, Some (s\<lparr>refs := (refs s)(?k \<mapsto> ref1)\<rparr>))"
  proof
    fix s :: "'cb render"
    from spec [OF any1, of "Some s"]
    show "isReference ToLower (Some s) d1 = Inr (n1, Some (s\<lparr>refs := (refs s)(?k \<mapsto> ref1)\<rparr>))"
      by simp
  qed
  have a2: "\<forall>s :: 'cb render. isReference ToLower (Some s) d2
             = Inr (n2, Some (s\<lparr>refs := (refs s)(?k \<mapsto> ref2)\<rparr>))"
  proof
    fix s :: "'cb render"
    from spec [OF any2, of "Some s"]
    show "isReference ToLower (Some s) d2 = Inr (n2, Some (s\<lparr>refs := (refs s)(?k \<mapsto> ref2)\<rparr>))"
      by simp
  qed
  from r1 have t1: "refs r1 = (refs r)(?k \<mapsto> ref1)" by simp
  from r1 r2 have t2: "refs r2 = (refs r)(?k \<mapsto> ref2)" by simp
  from r1 r2 have t3: "r2 = r\<lparr>refs := (refs r)(?k \<mapsto> ref2)\<rparr>" by simp
  from key a1 a2 t1 t2 t3 show ?thesis by blast
qed

theorem later_definition_overwrites_witness:
  "differ_in_case_only (label_of def_foo) (label_of def_foo2)
   \<and> isReference (map ascii_lower) (Some (new_render minimal_renderer 0)) def_foo
       = Inr (9, Some ((new_render minimal_renderer 0)\<lparr>refs := [''foo'' \<mapsto> reference_a]\<rparr>))
   \<and> isReference (map ascii_lower)
         (Some ((new_render minimal_renderer 0)\<lparr>refs := [''foo'' \<mapsto> reference_a]\<rparr>)) def_foo2
       = Inr (13, Some ((new_render minimal_renderer 0)\<lparr>refs := [''foo'' \<mapsto> reference_b]\<rparr>))
   \<and> refs ((new_render minimal_renderer 0)\<lparr>refs := [''foo'' \<mapsto> reference_b]\<rparr>)
         (map ascii_lower (label_of def_foo)) = Some reference_b"
proof -
  let ?r = "new_render minimal_renderer 0"
  let ?r1 = "?r\<lparr>refs := [''foo'' \<mapsto> reference_a]\<rparr>"
  let ?r2 = "?r\<lparr>refs := [''foo'' \<mapsto> reference_b]\<rparr>"
  have fold: "\<forall>a b. differ_in_case_only a b \<longrightarrow> map ascii_lower a = map ascii_lower b"
    by (simp add: differ_in_case_only_def)
  have first: "isReference (map ascii_lower) (Some ?r) def_foo = Inr (9, Some ?r1)"
    using isReference_def_foo [of "map ascii_lower" ?r, unfolded lower_foo]
    by (simp add: reference_a_def refs_new_render)
  have second: "isReference (map ascii_lower) (Some ?r1) def_foo2 = Inr (13, Some ?r2)"
    using isReference_def_foo2 [of "map ascii_lower" ?r1, unfolded lower_foo]
    by (simp add: reference_b_def)
  have labels: "differ_in_case_only (label_of def_foo) (label_of def_foo2)"
    by code_simp
  have pos: "(0::nat) < 9" "(0::nat) < 13" by simp_all
  from later_definition_overwrites [OF fold first pos(1) second pos(2) labels]
  obtain ref2 where "refs ?r2 = (refs ?r)(map ascii_lower (label_of def_foo) \<mapsto> ref2)"
    by blast
  then have "refs ?r2 (map ascii_lower (label_of def_foo))
      = ((refs ?r)(map ascii_lower (label_of def_foo) \<mapsto> ref2)) (map ascii_lower (label_of def_foo))"
    by (rule arg_cong [where f = "\<lambda>t. t (map ascii_lower (label_of def_foo))"])
  then have "refs ?r2 (map ascii_lower (label_of def_foo)) = Some reference_b"
    unfolding key_foo by simp
  with labels first second show ?thesis by blast
qed

subsection \<open>A link between angle brackets\<close>

text \<open>
  Claim C3, run on \<open>[a]: <http://x>\<close>: the opening bracket is skipped before
  \<open>linkOffset\<close> is set, so the test \<open>data[linkOffset] == '<'\<close> on line 393 looks
  at the byte after it and fails; the closing bracket stays in the stored link.
\<close>

theorem isReference_angle_target:
  "isReference ToLower (Some r) angle_input =
     Inr (15, Some (r\<lparr>refs := (refs r)(ToLower ''a'' \<mapsto> \<lparr>link = ''http://x>'', title = []\<rparr>)\<rparr>))"
proof -
  have "ref_id angle_input = Some (1, 2)" by code_simp
  moreover have "ref_spacer angle_input 3 = Some 5" by code_simp
  moreover have "ref_link angle_input 5 = Inr (6, 15, 15)" by code_simp
  moreover have "ref_title angle_input 15 = Some (15, 0, 0)" by code_simp
  moreover have "slice angle_input 1 2 = ''a''" by code_simp
  moreover have "slice angle_input 6 15 = ''http://x>''" by code_simp
  moreover have "slice angle_input 0 0 = []" by code_simp
  ultimately show ?thesis by (simp add: isReference_def)
qed

section \<open>Properties of the first pass\<close>

subsection \<open>The example of the specification\<close>

lemma isReference_example:
  "isReference ToLower (Some r) example_input =
     Inr (33, Some (r\<lparr>refs := (refs r)(ToLower ''1'' \<mapsto> example_reference)\<rparr>))"
proof -
  have "ref_id example_input = Some (1, 2)" by code_simp
  moreover have "ref_spacer example_input 3 = Some 5" by code_simp
  moreover have "ref_link example_input 5 = Inr (5, 23, 23)" by code_simp
  moreover have "ref_title example_input 23 = Some (33, 25, 32)" by code_simp
  moreover have "slice example_input 1 2 = ''1''" by code_simp
  moreover have "slice example_input 5 23 = ''http://example.com''" by code_simp
  moreover have "slice example_input 25 32 = ''Example''" by code_simp
  ultimately show ?thesis by (simp add: isReference_def example_reference_def)
qed

lemma tab_prefix_no_tab: "TAB \<notin> set line \<Longrightarrow> tab_prefix line i prefix = (prefix, False)"
  by (induction line arbitrary: i prefix) auto

lemma expandTabs_no_tab:
  "TAB \<notin> set line \<Longrightarrow> expandTabs DecodeRuneSize out line tabSize = Inr (out @ line)"
  by (simp add: expandTabs_def tab_prefix_no_tab expandTabs_fast_def)

lemma copy_line_empty:
  assumes "scan_while not_eol input beg = beg"
  shows "copy_line d rndr input tabSize beg out = Inr (out @ [NL], skip_eol input beg)"
  using assms by (simp add: copy_line_def)

lemma copy_line_plain:
  assumes "scan_while not_eol input beg = e" and "beg < e" and "TAB \<notin> set (slice input beg e)"
  shows "copy_line d (Some r) input tabSize beg out
    = Inr (out @ slice input beg e @ [NL], skip_eol input e)"
  using assms by (simp add: copy_line_def expandTabs_no_tab)

lemma copy_line_example_33:
  "copy_line d rndr example_input tabSize 33 [] = Inr ([NL], 34)"
proof -
  have "scan_while not_eol example_input 33 = 33" by code_simp
  then have "copy_line d rndr example_input tabSize 33 []
      = Inr ([] @ [NL], skip_eol example_input 33)"
    by (rule copy_line_empty)
  moreover have "skip_eol example_input 33 = 34" by code_simp
  ultimately show ?thesis by simp
qed

lemma copy_line_example_34:
  "copy_line d (Some r) example_input tabSize 34 [NL] = Inr (NL # ''See [text][1].'' @ [NL], 49)"
proof -
  have "scan_while not_eol example_input 34 = 48" by code_simp
  moreover have "(34::nat) < 48" by simp
  moreover have "TAB \<notin> set (slice example_input 34 48)" by code_simp
  ultimately have "copy_line d (Some r) example_input tabSize 34 [NL]
      = Inr ([NL] @ slice example_input 34 48 @ [NL], skip_eol example_input 48)"
    by (rule copy_line_plain)
  moreover have "slice example_input 34 48 = ''See [text][1].''" by code_simp
  moreover have "skip_eol example_input 48 = 49" by code_simp
  ultimately show ?thesis by simp
qed

lemma isReference_example_rest:
  "isReference ToLower rndr (drop 33 example_input) = Inr (0, rndr)"
  "isReference ToLower rndr (drop 34 example_input) = Inr (0, rndr)"
proof -
  have "ref_id (drop 33 example_input) = None" by code_simp
  then show "isReference ToLower rndr (drop 33 example_input) = Inr (0, rndr)"
    by (simp add: isReference_def)
  have "ref_id (drop 34 example_input) = None" by code_simp
  then show "isReference ToLower rndr (drop 34 example_input) = Inr (0, rndr)"
    by (simp add: isReference_def)
qed

lemma firstPass_loop_example:
  "firstPass_loop ToLower d (Some r) example_input tabSize 0 [] =
     Inr (NL # ''See [text][1].'' @ [NL],
          Some (r\<lparr>refs := (refs r)(ToLower ''1'' \<mapsto> example_reference)\<rparr>))"
proof -
  let ?r' = "r\<lparr>refs := (refs r)(ToLower ''1'' \<mapsto> example_reference)\<rparr>"
  have len: "length example_input = 49" by code_simp
  have "firstPass_loop ToLower d (Some ?r') example_input tabSize 49 (NL # ''See [text][1].'' @ [NL])
      = Inr (NL # ''See [text][1].'' @ [NL], Some ?r')"
    by (subst firstPass_loop.simps) (simp add: len)
  then have "firstPass_loop ToLower d (Some ?r') example_input tabSize 34 [NL]
      = Inr (NL # ''See [text][1].'' @ [NL], Some ?r')"
    by (subst firstPass_loop.simps)
      (simp add: len isReference_example_rest copy_line_example_34)
  then have "firstPass_loop ToLower d (Some ?r') example_input tabSize 33 []
      = Inr (NL # ''See [text][1].'' @ [NL], Some ?r')"
    by (subst firstPass_loop.simps)
      (simp add: len isReference_example_rest copy_line_example_33)
  then show ?thesis
    by (subst firstPass_loop.simps) (simp add: len isReference_example)
qed

text \<open>
  An input on which the first pass panics: after the spacer the data ends with \<open><\<close>,
  and line 393 reads \<open>data[linkOffset]\<close> one past the end.
\<close>

lemma isReference_index_panic:
  "isReference ToLower rndr panic_input = Inl IndexOutOfRange"
proof -
  have "ref_id panic_input = Some (1, 2)" by code_simp
  moreover have "ref_spacer panic_input 3 = Some 4" by code_simp
  moreover have "ref_link panic_input 4 = Inl IndexOutOfRange" by code_simp
  ultimately show ?thesis by (simp add: isReference_def)
qed

lemma firstPass_index_panic:
  "firstPass ToLower d (Some r) panic_input = Inl IndexOutOfRange"
proof -
  have "0 < length panic_input" by code_simp
  then have "firstPass_loop ToLower d (Some r) panic_input tabSize 0 [] = Inl IndexOutOfRange"
    for tabSize
    by (subst firstPass_loop.simps) (simp add: isReference_index_panic)
  then show ?thesis by (simp add: firstPass_def)
qed

text \<open>
  Claim C1, as the code has it. On the example, \<open>isReference\<close> returns 33: the
  bytes of the reference line before its line feed. The reference table then holds
  exactly one entry, under \<open>1\<close>, with the link and the title without its quotes. The
  line feed that is left is the next line of the first pass: the buffer is an empty line
  followed by the second line.
\<close>

theorem example_first_pass:
  assumes "ToLower ''1'' = ''1''"
  shows "isReference ToLower (Some (new_render m extensions)) example_input
           = Inr (33, Some ((new_render m extensions)\<lparr>refs := [''1'' \<mapsto> example_reference]\<rparr>))
    \<and> drop 33 example_input = NL # ''See [text][1].'' @ [NL]
    \<and> firstPass ToLower d (Some (new_render m extensions)) example_input
           = Inr (NL # ''See [text][1].'' @ [NL],
                  Some ((new_render m extensions)\<lparr>refs := [''1'' \<mapsto> example_reference]\<rparr>))"
proof -
  have refs0: "refs (new_render m extensions) = Map.empty"
    by (simp add: new_render_def Let_def register_def)
  have "drop 33 example_input = NL # ''See [text][1].'' @ [NL]" by code_simp
  then show ?thesis
    using assms refs0
    by (simp add: firstPass_def firstPass_loop_example isReference_example)
qed

theorem example_first_pass_witness:
  "map ascii_lower ''1'' = ''1''
   \<and> firstPass (map ascii_lower) ascii_rune_size (Some (new_render minimal_renderer 0)) example_input
       = Inr (NL # ''See [text][1].'' @ [NL],
              Some ((new_render minimal_renderer 0)\<lparr>refs := [''1'' \<mapsto> example_reference]\<rparr>))"
proof -
  have low: "map ascii_lower ''1'' = ''1''" by code_simp
  from example_first_pass [of "map ascii_lower" minimal_renderer 0 ascii_rune_size, OF low] low
  show ?thesis by blast
qed

text \<open>
  The claim as it was stated fails there: the buffer is not the second line alone.
\<close>

theorem example_first_pass_counterexample:
  "map_sum id fst
     (firstPass (map ascii_lower) ascii_rune_size (Some (new_render minimal_renderer 0)) example_input)
   \<noteq> Inr (''See [text][1].'' @ [NL])"
proof -
  have "map ascii_lower ''1'' = ''1''" by code_simp
  then show ?thesis
    by (simp add: firstPass_def firstPass_loop_example NL_def)
qed

section \<open>Properties of Markdown\<close>

subsection \<open>The inline parsers\<close>

lemma mk_register [simp]: "mk (register rndr c p) = mk rndr"
  by (simp add: register_def)

lemma inline_register [simp]:
  "inline (register rndr c p) c' = (if c' = c then Some p else inline rndr c')"
  by (simp add: register_def)

lemma mk_if: "mk (if b then x else y) = (if b then mk x else mk y)"
  by simp

lemma inline_if: "inline (if b then x else y) c = (if b then inline x c else inline y c)"
  by simp

lemma inline_star:
  "inline (new_render m extensions) (CHR ''*'') = (if has_emphasis m then Some inlineEmphasis else None)"
  unfolding new_render_def Let_def
  by (simp add: mk_if inline_if has_emphasis_def NL_def split del: if_split cong del: if_weak_cong)

lemma inline_underscore:
  "inline (new_render m extensions) (CHR ''_'') = (if has_emphasis m then Some inlineEmphasis else None)"
  unfolding new_render_def Let_def
  by (simp add: mk_if inline_if has_emphasis_def NL_def split del: if_split cong del: if_weak_cong)

lemma inline_backquote:
  "inline (new_render m extensions) (CHR 0x60) = (if CodeSpan m \<noteq> None then Some inlineCodeSpan else None)"
  unfolding new_render_def Let_def
  by (simp add: mk_if inline_if has_emphasis_def NL_def split del: if_split cong del: if_weak_cong)

lemma inline_newline:
  "inline (new_render m extensions) (NL) = (if LineBreak m \<noteq> None then Some inlineLineBreak else None)"
  unfolding new_render_def Let_def
  by (simp add: mk_if inline_if has_emphasis_def NL_def split del: if_split cong del: if_weak_cong)

lemma inline_bracket:
  "inline (new_render m extensions) (CHR ''['') = (if Image m \<noteq> None \<or> Link m \<noteq> None then Some inlineLink else None)"
  unfolding new_render_def Let_def
  by (simp add: mk_if inline_if has_emphasis_def NL_def split del: if_split cong del: if_weak_cong)

lemma inline_langle:
  "inline (new_render m extensions) (CHR ''<'') = Some inlineLAngle"
  unfolding new_render_def Let_def
  by (simp add: mk_if inline_if has_emphasis_def NL_def split del: if_split cong del: if_weak_cong)

lemma inline_backslash:
  "inline (new_render m extensions) (CHR 0x5C) = Some inlineEscape"
  unfolding new_render_def Let_def
  by (simp add: mk_if inline_if has_emphasis_def NL_def split del: if_split cong del: if_weak_cong)

lemma inline_ampersand:
  "inline (new_render m extensions) (CHR ''&'') = Some inlineEntity"
  unfolding new_render_def Let_def
  by (simp add: mk_if inline_if has_emphasis_def NL_def split del: if_split cong del: if_weak_cong)

lemma inline_colon:
  "inline (new_render m extensions) (CHR '':'') = (if extensions AND EXTENSION_AUTOLINK \<noteq> 0 then Some inlineAutoLink else None)"
  unfolding new_render_def Let_def
  by (simp add: mk_if inline_if has_emphasis_def NL_def split del: if_split cong del: if_weak_cong)

lemma inline_tilde:
  "inline (new_render m extensions) (CHR ''~'')
      = (if has_emphasis m \<and> extensions AND EXTENSION_STRIKETHROUGH \<noteq> 0
         then Some inlineEmphasis else None)"
proof -
  have "inline (new_render m extensions) (CHR ''~'')
      = (if has_emphasis m
         then (if extensions AND EXTENSION_STRIKETHROUGH \<noteq> 0 then Some inlineEmphasis else None)
         else None)"
    unfolding new_render_def Let_def
    by (simp add: mk_if inline_if has_emphasis_def NL_def split del: if_split
        cong del: if_weak_cong)
  then show ?thesis by simp
qed

lemma inline_other:
  "c \<notin> trigger_bytes \<Longrightarrow> inline (new_render m extensions) c = None"
  unfolding new_render_def Let_def
  by (simp add: mk_if inline_if has_emphasis_def NL_def trigger_bytes_def split del: if_split
      cong del: if_weak_cong)

lemma nesting_register: "nesting (register rndr c p) = nesting rndr"
  by (simp add: register_def)

lemma nesting_if: "nesting (if b then x else y) = (if b then nesting x else nesting y)"
  by simp

lemma mk_new_render: "mk (new_render m extensions) = m"
  unfolding new_render_def Let_def
  by (simp add: mk_if split del: if_split cong del: if_weak_cong)

lemma nesting_new_render: "nesting (new_render m extensions) = 0"
  unfolding new_render_def Let_def
  by (simp add: mk_if nesting_if nesting_register split del: if_split cong del: if_weak_cong)

text \<open>
  Claim C5. The table that \<open>Markdown\<close> builds: the emphasis parser under \<open>*\<close> and
  \<open>_\<close> exactly where one of the three emphasis callbacks is set, and under \<open>~\<close>
  exactly where the strikethrough extension is enabled as well; the code span parser
  under the backquote exactly where \<open>CodeSpan\<close> is set; the line break parser under the
  line feed exactly where \<open>LineBreak\<close> is set; the link parser under \<open>[\<close> exactly
  where \<open>Image\<close> or \<open>Link\<close> is set; the parsers under \<open><\<close>, the backslash and
  \<open>&\<close> always; the autolink parser under the colon exactly where the autolink
  extension is enabled; and nothing under any other byte.
\<close>

theorem dispatch_table:
  "inline (new_render m extensions) (CHR ''*'')
      = (if has_emphasis m then Some inlineEmphasis else None)
   \<and> inline (new_render m extensions) (CHR ''_'')
      = (if has_emphasis m then Some inlineEmphasis else None)
   \<and> inline (new_render m extensions) (CHR ''~'')
      = (if has_emphasis m \<and> extensions AND EXTENSION_STRIKETHROUGH \<noteq> 0
         then Some inlineEmphasis else None)
   \<and> inline (new_render m extensions) (CHR 0x60)
      = (if CodeSpan m \<noteq> None then Some inlineCodeSpan else None)
   \<and> inline (new_render m extensions) NL
      = (if LineBreak m \<noteq> None then Some inlineLineBreak else None)
   \<and> inline (new_render m extensions) (CHR ''['')
      = (if Image m \<noteq> None \<or> Link m \<noteq> None then Some inlineLink else None)
   \<and> inline (new_render m extensions) (CHR ''<'') = Some inlineLAngle
   \<and> inline (new_render m extensions) (CHR 0x5C) = Some inlineEscape
   \<and> inline (new_render m extensions) (CHR ''&'') = Some inlineEntity
   \<and> inline (new_render m extensions) (CHR '':'')
      = (if extensions AND EXTENSION_AUTOLINK \<noteq> 0 then Some inlineAutoLink else None)
   \<and> (\<forall>c. c \<notin> trigger_bytes \<longrightarrow> inline (new_render m extensions) c = None)"
  by (simp add: inline_star inline_underscore inline_tilde inline_backquote inline_newline
      inline_bracket inline_langle inline_backslash inline_ampersand inline_colon inline_other)

theorem dispatch_table_witness:
  "CHR ''a'' \<notin> trigger_bytes
   \<and> inline (new_render minimal_renderer (EXTENSION_AUTOLINK OR EXTENSION_STRIKETHROUGH)) (CHR ''a'') = None
   \<and> inline (new_render minimal_renderer (EXTENSION_AUTOLINK OR EXTENSION_STRIKETHROUGH)) (CHR '':'')
       = Some inlineAutoLink
   \<and> inline (new_render minimal_renderer (EXTENSION_AUTOLINK OR EXTENSION_STRIKETHROUGH)) (CHR ''~'')
       = None"
proof -
  have a: "CHR ''a'' \<notin> trigger_bytes" by (simp add: trigger_bytes_def NL_def)
  have e: "(EXTENSION_AUTOLINK OR EXTENSION_STRIKETHROUGH) AND EXTENSION_AUTOLINK \<noteq> 0"
    by (simp add: EXTENSION_AUTOLINK_def EXTENSION_STRIKETHROUGH_def)
  have n: "\<not> has_emphasis minimal_renderer"
    by (simp add: has_emphasis_def minimal_renderer_def)
  from dispatch_table [of minimal_renderer "EXTENSION_AUTOLINK OR EXTENSION_STRIKETHROUGH"] a e n
  show ?thesis by simp
qed

subsection \<open>No renderer\<close>

text \<open>
  Claim C9. Without a renderer \<open>Markdown\<close> returns nil at once, whatever the input and
  the extensions: no pass is run, so not even an input on which the first pass panics
  changes the result.
\<close>

theorem Markdown_nil_renderer:
  "Markdown ToLower DecodeRuneSize parseBlock input None extensions = Inr None"
  by (simp add: Markdown_def)

subsection \<open>The nesting depth at the end\<close>

text \<open>
  Claim C6. Where both passes, the block parser and the document callbacks return, the
  conversion ends on the test of the nesting depth that the block parser left: a depth
  other than zero is a panic, and no output is returned; with depth zero the output
  buffer, footer included, is returned.
\<close>

theorem nesting_checked:
  assumes "firstPass ToLower DecodeRuneSize (Some (new_render m extensions)) input
             = Inr (first, Some r1)"
    and "call_slot (DocumentHeader (mk r1)) [] = Inr header"
    and "parseBlock header r1 first = Inr (body, r2)"
    and "call_slot (DocumentFooter (mk r2)) body = Inr output"
  shows "secondPass parseBlock (Some r1) first
           = (if nesting r2 \<noteq> 0 then Inl NestingNotZero else Inr output)
    \<and> Markdown ToLower DecodeRuneSize parseBlock input (Some m) extensions
           = (if nesting r2 \<noteq> 0 then Inl NestingNotZero else Inr (Some output))"
  using assms by (simp add: Markdown_def secondPass_def)

theorem nesting_checked_witness:
  "Markdown (map ascii_lower) ascii_rune_size parse_unbalanced example_input
       (Some minimal_renderer) 0
     = Inl NestingNotZero
   \<and> Markdown (map ascii_lower) ascii_rune_size parse_copy example_input
       (Some minimal_renderer) 0
     = Inr (Some (NL # ''See [text][1].'' @ [NL]))"
proof -
  let ?r0 = "new_render minimal_renderer 0"
  let ?r1 = "?r0\<lparr>refs := (refs ?r0)(''1'' \<mapsto> example_reference)\<rparr>"
  let ?first = "NL # ''See [text][1].'' @ [NL]"
  have "map ascii_lower ''1'' = ''1''" by code_simp
  then have first: "firstPass (map ascii_lower) ascii_rune_size (Some ?r0) example_input
      = Inr (?first, Some ?r1)"
    by (simp add: firstPass_def firstPass_loop_example)
  have header: "call_slot (DocumentHeader (mk ?r1)) [] = Inr []"
    by (simp add: mk_new_render call_slot_def minimal_renderer_def)
  have unbalanced: "parse_unbalanced [] ?r1 ?first = Inr (?first, ?r1\<lparr>nesting := nesting ?r1 + 1\<rparr>)"
    by (simp add: parse_unbalanced_def)
  have copy: "parse_copy [] ?r1 ?first = Inr (?first, ?r1)"
    by (simp add: parse_copy_def)
  have footer: "call_slot (DocumentFooter (mk (?r1\<lparr>nesting := nesting ?r1 + 1\<rparr>))) ?first = Inr ?first"
    "call_slot (DocumentFooter (mk ?r1)) ?first = Inr ?first"
    by (simp_all add: mk_new_render call_slot_def minimal_renderer_def)
  from nesting_checked [where parseBlock = parse_unbalanced, OF first header unbalanced footer(1)]
    nesting_checked [where parseBlock = parse_copy, OF first header copy footer(2)]
  show ?thesis by (simp add: nesting_new_render)
qed

section \<open>Properties of expandTabs\<close>

lemma tab_fill_stop:
  "0 < tabSize \<Longrightarrow>
     tab_fill tabSize column out
       = Inr (out @ replicate (tabSize - column mod tabSize) SP,
              column + (tabSize - column mod tabSize))"
proof (induction tabSize column out rule: tab_fill.induct)
  case (1 tabSize column out)
  have lt: "column mod tabSize < tabSize" using "1.prems" by simp
  show ?case
  proof (cases "Suc column mod tabSize = 0")
    case True
    then have "Suc (column mod tabSize) = tabSize"
      by (simp add: mod_Suc split: if_splits)
    then have "tabSize - column mod tabSize = 1" by simp
    with True "1.prems" show ?thesis
      by (subst tab_fill.simps) (simp add: Let_def)
  next
    case False
    then have suc: "Suc column mod tabSize = Suc (column mod tabSize)"
      by (simp add: mod_Suc split: if_splits)
    from False "1.prems" have
      "tab_fill tabSize (column + 1) (out @ [SP])
         = Inr ((out @ [SP]) @ replicate (tabSize - (column + 1) mod tabSize) SP,
                (column + 1) + (tabSize - (column + 1) mod tabSize))"
      by (intro "1.IH") simp_all
    moreover from suc lt have "tabSize - column mod tabSize = Suc (tabSize - Suc column mod tabSize)"
      by simp
    ultimately show ?thesis
      using False "1.prems"
      by (subst tab_fill.simps) (simp add: Let_def replicate_app_Cons_same)
  qed
qed

lemma rune_run_halt:
  "i \<ge> length line \<or> line ! i = TAB \<Longrightarrow> rune_run d line i column = Inr (i, column)"
  by (subst rune_run.simps) auto

lemma rune_run_total:
  "decoder_contract d \<Longrightarrow> i \<le> length line \<Longrightarrow>
    \<exists>j c. rune_run d line i column = Inr (j, c) \<and> i \<le> j \<and> j \<le> length line
      \<and> (j < length line \<longrightarrow> line ! j = TAB)"
proof (induction d line i column rule: rune_run.induct)
  case (1 d line i column)
  show ?case
  proof (cases "i < length line \<and> line ! i \<noteq> TAB")
    case True
    let ?s = "d (drop i line)"
    from True have "drop i line \<noteq> []" by simp
    with "1.prems"(1) have "1 \<le> ?s \<and> ?s \<le> length (drop i line)"
      unfolding decoder_contract_def by blast
    with True have nz: "?s \<noteq> 0" and le: "i + ?s \<le> length line" by auto
    from "1.IH" [OF True refl nz "1.prems"(1) le]
    obtain j c where run: "rune_run d line (i + ?s) (column + 1) = Inr (j, c)"
      and j: "i + ?s \<le> j" "j \<le> length line" "j < length line \<longrightarrow> line ! j = TAB"
      by blast
    have "rune_run d line i column = rune_run d line (i + ?s) (column + 1)"
      using True nz by (subst rune_run.simps) (simp add: Let_def)
    with run j show ?thesis by auto
  next
    case False
    then have "rune_run d line i column = Inr (i, column)"
      by (auto simp: rune_run_halt)
    with False "1.prems"(2) show ?thesis by auto
  qed
qed

lemma expandTabs_slow_loop_prefix:
  assumes contract: "decoder_contract d" and ts: "0 < tabSize" and rest: "TAB \<notin> set rest"
  shows "i \<le> k \<Longrightarrow> column mod tabSize = 0 \<Longrightarrow>
    expandTabs_slow_loop d (replicate k TAB @ rest) tabSize i column out
      = Inr (out @ replicate ((k - i) * tabSize) SP @ rest)"
proof (induction "k - i" arbitrary: i column out)
  case 0
  let ?line = "replicate k TAB @ rest"
  from 0 have ik: "i = k" by simp
  show ?case
  proof (cases "rest = []")
    case True
    with ik show ?thesis by (subst expandTabs_slow_loop.simps) simp
  next
    case False
    with ik have lt: "i < length ?line" by simp
    from rune_run_total [OF contract, of i ?line column] lt
    obtain j c where run: "rune_run d ?line i column = Inr (j, c)"
      and j: "i \<le> j" "j \<le> length ?line" "j < length ?line \<longrightarrow> ?line ! j = TAB"
      by auto
    have "j = length ?line"
    proof (rule ccontr)
      assume "j \<noteq> length ?line"
      with j have jl: "j < length ?line" and tab: "?line ! j = TAB" by simp_all
      from jl j(1) ik have "?line ! j = rest ! (j - k)" "j - k < length rest"
        by (simp_all add: nth_append)
      with tab rest show False by (metis nth_mem)
    qed
    with run lt ik False show ?thesis
      by (subst expandTabs_slow_loop.simps) (simp add: Let_def slice_def)
  qed
next
  case (Suc n)
  let ?line = "replicate k TAB @ rest"
  from Suc have ik: "i < k" by simp
  then have lt: "i < length ?line" and tab: "?line ! i = TAB"
    by (simp_all add: nth_append)
  then have run: "rune_run d ?line i column = Inr (i, column)"
    by (simp add: rune_run_halt)
  from Suc.prems(2) ts have fill:
    "tab_fill tabSize column out = Inr (out @ replicate tabSize SP, column + tabSize)"
    by (simp add: tab_fill_stop)
  have "expandTabs_slow_loop d ?line tabSize (i + 1) (column + tabSize) (out @ replicate tabSize SP)
      = Inr ((out @ replicate tabSize SP) @ replicate ((k - (i + 1)) * tabSize) SP @ rest)"
    using Suc.hyps(2) ik Suc.prems(2) by (intro Suc.hyps(1)) simp_all
  moreover have "replicate tabSize SP @ replicate ((k - (i + 1)) * tabSize) SP
      = replicate ((k - i) * tabSize) SP"
  proof -
    from ik have "k - i = Suc (k - (i + 1))" by simp
    then show ?thesis by (simp add: replicate_add)
  qed
  ultimately show ?case
    using lt run fill
    by (subst expandTabs_slow_loop.simps) (simp add: Let_def)
qed

lemma tab_prefix_replicate:
  "TAB \<notin> set rest \<Longrightarrow> tab_prefix (replicate k TAB @ rest) i i = (i + k, False)"
proof (induction k arbitrary: i)
  case 0
  then show ?case by (simp add: tab_prefix_no_tab)
next
  case (Suc k)
  then show ?case by simp
qed

text \<open>
  Claim C7. A line without tabs is written to the buffer as it is. On a line whose tabs
  are all at its beginning, with a tab size of 4 or 8, the scan of lines 502 to 513 counts
  these tabs and chooses the fast path; the slow path, run on the same line, writes the
  same bytes: \<open>tabSize\<close> spaces for each tab, then the rest of the line.
\<close>

theorem expandTabs_paths_agree:
  "(TAB \<notin> set line \<longrightarrow> expandTabs d out line tabSize = Inr (out @ line))
   \<and> (decoder_contract d \<and> (tabSize = TAB_SIZE_DEFAULT \<or> tabSize = TAB_SIZE_EIGHT)
        \<and> TAB \<notin> set rest \<longrightarrow>
          tab_prefix (replicate k TAB @ rest) 0 0 = (k, False)
        \<and> expandTabs_fast out (replicate k TAB @ rest) k tabSize
            = out @ replicate (k * tabSize) SP @ rest
        \<and> expandTabs_slow d out (replicate k TAB @ rest) tabSize
            = Inr (expandTabs_fast out (replicate k TAB @ rest) k tabSize)
        \<and> expandTabs d out (replicate k TAB @ rest) tabSize
            = Inr (expandTabs_fast out (replicate k TAB @ rest) k tabSize))"
proof (rule conjI; rule impI)
  assume "TAB \<notin> set line"
  then show "expandTabs d out line tabSize = Inr (out @ line)"
    by (rule expandTabs_no_tab)
next
  assume h: "decoder_contract d \<and> (tabSize = TAB_SIZE_DEFAULT \<or> tabSize = TAB_SIZE_EIGHT)
      \<and> TAB \<notin> set rest"
  then have ts: "0 < tabSize"
    by (auto simp: TAB_SIZE_DEFAULT_def TAB_SIZE_EIGHT_def)
  from h have contract: "decoder_contract d" and rest: "TAB \<notin> set rest" by simp_all
  have pre: "tab_prefix (replicate k TAB @ rest) 0 0 = (k, False)"
    using tab_prefix_replicate [OF rest, of k 0] by simp
  have fast: "expandTabs_fast out (replicate k TAB @ rest) k tabSize
        = out @ replicate (k * tabSize) SP @ rest"
    by (simp add: expandTabs_fast_def)
  have slow: "expandTabs_slow d out (replicate k TAB @ rest) tabSize
        = Inr (out @ replicate (k * tabSize) SP @ rest)"
    using expandTabs_slow_loop_prefix [OF contract ts rest, of 0 k 0 out]
    by (simp add: expandTabs_slow_def)
  have both: "expandTabs d out (replicate k TAB @ rest) tabSize
        = Inr (expandTabs_fast out (replicate k TAB @ rest) k tabSize)"
    by (simp add: expandTabs_def pre)
  from pre fast slow both
  show "tab_prefix (replicate k TAB @ rest) 0 0 = (k, False)
        \<and> expandTabs_fast out (replicate k TAB @ rest) k tabSize
            = out @ replicate (k * tabSize) SP @ rest
        \<and> expandTabs_slow d out (replicate k TAB @ rest) tabSize
            = Inr (expandTabs_fast out (replicate k TAB @ rest) k tabSize)
        \<and> expandTabs d out (replicate k TAB @ rest) tabSize
            = Inr (expandTabs_fast out (replicate k TAB @ rest) k tabSize)"
    by simp
qed

theorem expandTabs_paths_agree_witness:
  "TAB \<notin> set ''ab''
   \<and> expandTabs ascii_rune_size [] ''ab'' TAB_SIZE_DEFAULT = Inr ''ab''
   \<and> expandTabs_slow ascii_rune_size [] (replicate 2 TAB @ ''ab'') TAB_SIZE_DEFAULT
       = Inr (expandTabs_fast [] (replicate 2 TAB @ ''ab'') 2 TAB_SIZE_DEFAULT)
   \<and> expandTabs_fast [] (replicate 2 TAB @ ''ab'') 2 TAB_SIZE_DEFAULT = ''        ab''"
proof -
  have c: "decoder_contract ascii_rune_size"
    by (auto simp: decoder_contract_def ascii_rune_size_def Suc_le_eq)
  have t: "TAB \<notin> set ''ab''" by (simp add: TAB_def)
  have f: "expandTabs_fast [] (replicate 2 TAB @ ''ab'') 2 TAB_SIZE_DEFAULT = ''        ab''"
    by code_simp
  from expandTabs_paths_agree [where line = "''ab''" and d = ascii_rune_size and out = "[]"
      and tabSize = TAB_SIZE_DEFAULT and rest = "''ab''" and k = 2] c t f
  show ?thesis by simp
qed

section \<open>The lines of the first pass\<close>

subsection \<open>What a line adds to the buffer\<close>










subsection \<open>The lines of the input\<close>





subsection \<open>Where the first pass returns\<close>















subsection \<open>Reference definitions of one line\<close>









subsection \<open>Two runs\<close>







subsection \<open>The normalized buffer\<close>




end
